theory Spec2Isabelle
  imports Main
begin

section \<open>Strings of the source language\<close>

text \<open>
  The sources are TypeScript. A string there is a sequence of UTF-16 code units, and
  \<open>length\<close>, \<open>substring\<close>, \<open>split\<close> and the regular expressions (none has the \<open>u\<close> flag)
  all count code units. A code unit is modelled by its numeric value, a string by the
  list of its code units. \<open>str\<close> reads an ASCII literal.
\<close>

type_synonym jsstring = "nat list"

definition str :: "string \<Rightarrow> jsstring" where
  "str s = map of_char s"

text \<open>The class \<open>\s\<close> of a regular expression, which is also what \<open>trim\<close> strips:
  WhiteSpace and LineTerminator of ECMAScript.\<close>

definition isWhiteSpace :: "nat \<Rightarrow> bool" where
  "isWhiteSpace c \<longleftrightarrow>
     (0x09 \<le> c \<and> c \<le> 0x0D) \<or> c = 0x20 \<or> c = 0xA0 \<or> c = 0x1680 \<or>
     (0x2000 \<le> c \<and> c \<le> 0x200A) \<or> c = 0x2028 \<or> c = 0x2029 \<or> c = 0x202F \<or>
     c = 0x205F \<or> c = 0x3000 \<or> c = 0xFEFF"

text \<open>The characters that \<open>.\<close> does not match.\<close>

definition isLineTerminator :: "nat \<Rightarrow> bool" where
  "isLineTerminator c \<longleftrightarrow> c = 0x0A \<or> c = 0x0D \<or> c = 0x2028 \<or> c = 0x2029"

text \<open>The classes \<open>\d\<close> and \<open>\w\<close>.\<close>

definition isDigit :: "nat \<Rightarrow> bool" where
  "isDigit c \<longleftrightarrow> 0x30 \<le> c \<and> c \<le> 0x39"

definition isWordChar :: "nat \<Rightarrow> bool" where
  "isWordChar c \<longleftrightarrow>
     (0x61 \<le> c \<and> c \<le> 0x7A) \<or> (0x41 \<le> c \<and> c \<le> 0x5A) \<or> isDigit c \<or> c = 0x5F"

text \<open>The class \<open>[a-zA-Z0-9\u4e00-\u9fa5_-]\<close> of \<open>tagRegex\<close>.\<close>

definition isTagChar :: "nat \<Rightarrow> bool" where
  "isTagChar c \<longleftrightarrow>
     (0x61 \<le> c \<and> c \<le> 0x7A) \<or> (0x41 \<le> c \<and> c \<le> 0x5A) \<or> (0x30 \<le> c \<and> c \<le> 0x39) \<or>
     (0x4E00 \<le> c \<and> c \<le> 0x9FA5) \<or> c = 0x5F \<or> c = 0x2D"

definition trim :: "jsstring \<Rightarrow> jsstring" where
  "trim s = rev (dropWhile isWhiteSpace (rev (dropWhile isWhiteSpace s)))"

definition startsWith :: "jsstring \<Rightarrow> jsstring \<Rightarrow> bool" where
  "startsWith s p \<longleftrightarrow> take (length p) s = p"

definition endsWith :: "jsstring \<Rightarrow> jsstring \<Rightarrow> bool" where
  "endsWith s p \<longleftrightarrow> length p \<le> length s \<and> drop (length s - length p) s = p"

text \<open>\<open>s.substring(a, b)\<close>: both indices are clamped to the length, and swapped when
  \<open>a > b\<close>.\<close>

definition substring :: "jsstring \<Rightarrow> nat \<Rightarrow> nat \<Rightarrow> jsstring" where
  "substring s a b = take (max a b - min a b) (drop (min a b) s)"

text \<open>\<open>s.split('\n')\<close>: never empty, the empty string gives one empty line. The lines
  of the rest are therefore never \<open>[]\<close>, and the second case below does not arise.\<close>

fun split_nl :: "jsstring \<Rightarrow> jsstring list" where
  "split_nl [] = [[]]"
| "split_nl (c # cs) =
     (if c = 0x0A then [] # split_nl cs
      else (case split_nl cs of l # ls \<Rightarrow> (c # l) # ls | [] \<Rightarrow> [[c]]))"

text \<open>\<open>lines.join('\n')\<close>.\<close>

fun join_nl :: "jsstring list \<Rightarrow> jsstring" where
  "join_nl [] = []"
| "join_nl [l] = l"
| "join_nl (l # ls) = l @ 0x0A # join_nl ls"

text \<open>\<open>re.test(s)\<close> of a regular expression that is not anchored: the pattern, given as
  a test on the rest of the string, matches at some position.\<close>

fun regex_test :: "(jsstring \<Rightarrow> bool) \<Rightarrow> jsstring \<Rightarrow> bool" where
  "regex_test P [] = P []"
| "regex_test P (c # cs) = (P (c # cs) \<or> regex_test P cs)"


section \<open>Property classifier (\<open>calculateMemoProperties\<close>, api/client.ts)\<close>

text \<open>\<open>https?:\/\/[^\s]+\<close> at the start of \<open>s\<close>: the length of the (greedy) match.
  The two prefixes exclude each other at the fifth character, so trying \<open>https\<close> first
  is what the backtracking matcher does.\<close>

definition linkHere :: "jsstring \<Rightarrow> nat option" where
  "linkHere s =
     (if startsWith s (str ''https://'') \<and> takeWhile (\<lambda>c. \<not> isWhiteSpace c) (drop 8 s) \<noteq> []
      then Some (8 + length (takeWhile (\<lambda>c. \<not> isWhiteSpace c) (drop 8 s)))
      else if startsWith s (str ''http://'') \<and> takeWhile (\<lambda>c. \<not> isWhiteSpace c) (drop 7 s) \<noteq> []
      then Some (7 + length (takeWhile (\<lambda>c. \<not> isWhiteSpace c) (drop 7 s)))
      else None)"

text \<open>\<open>- \[[ xX]\]\<close> at the start of \<open>s\<close>.\<close>

definition taskBoxHere :: "jsstring \<Rightarrow> bool" where
  "taskBoxHere s \<longleftrightarrow>
     startsWith s (str ''- ['') \<and>
     (case drop 3 s of
        c # d # _ \<Rightarrow> (c = 0x20 \<or> c = 0x78 \<or> c = 0x58) \<and> d = 0x5D
      | _ \<Rightarrow> False)"

record memoProperties =
  hasLink :: bool
  hasTaskList :: bool
  hasCode :: bool
  hasIncompleteTasks :: bool

definition calculateMemoProperties :: "jsstring \<Rightarrow> memoProperties" where
  "calculateMemoProperties content =
     \<lparr> hasLink = regex_test (\<lambda>s. linkHere s \<noteq> None) content,
       hasTaskList = regex_test taskBoxHere content,
       hasCode = regex_test (\<lambda>s. startsWith s (str ''```'') \<or> startsWith s (str ''`'')) content,
       hasIncompleteTasks = regex_test (\<lambda>s. startsWith s (str ''- [ ]'')) content \<rparr>"


section \<open>Nodes\<close>

text \<open>
  A node object is \<open>{type, <kind>Node: payload}\<close>; the payloads are the constructor
  arguments. The list items of \<open>parseMarkdownToNodes\<close> also carry the constant field
  \<open>symbol: '-'\<close>, which nothing reads; it is left out. The number of an ordered item is
  the matched string of digits.
\<close>

datatype node =
    PARAGRAPH "node list"
  | HEADING nat "node list"
  | CODE_BLOCK jsstring jsstring
  | UNORDERED_LIST_ITEM nat "node list"
  | ORDERED_LIST_ITEM jsstring nat "node list"
  | TASK_LIST_ITEM nat bool "node list"
  | LINE_BREAK
  | TEXT jsstring
  | TAG jsstring
  | AUTO_LINK jsstring
  | CODE jsstring


section \<open>Inline tokenizer (\<open>parseLineContent\<close>, api/client.ts)\<close>

datatype match_type = tag | link

record rmatch =
  mtype :: match_type
  mstart :: nat
  mend :: nat
  mcontent :: jsstring

text \<open>The loop \<open>while ((match = tagRegex.exec(line)) !== null)\<close> of the global regular
  expression \<open>#([a-zA-Z0-9\u4e00-\u9fa5_-]+)\<close>: the leftmost match from \<open>lastIndex\<close> on,
  greedy, then on from its end. The second argument is the line from index \<open>i\<close> on.\<close>

function tagMatches :: "nat \<Rightarrow> jsstring \<Rightarrow> rmatch list" where
  "tagMatches i [] = []"
| "tagMatches i (c # cs) =
     (if c = 0x23 \<and> takeWhile isTagChar cs \<noteq> []
      then \<lparr> mtype = tag, mstart = i, mend = i + 1 + length (takeWhile isTagChar cs),
             mcontent = takeWhile isTagChar cs \<rparr>
           # tagMatches (i + 1 + length (takeWhile isTagChar cs)) (dropWhile isTagChar cs)
      else tagMatches (i + 1) cs)"
  by pat_completeness auto
termination
  by (relation "measure (\<lambda>(i, s). length s)") (auto simp: length_dropWhile_le less_Suc_eq_le)

text \<open>The same loop for \<open>linkRegex\<close>, \<open>(https?:\/\/[^\s]+)\<close>.\<close>

function linkMatches :: "nat \<Rightarrow> jsstring \<Rightarrow> rmatch list" where
  "linkMatches i [] = []"
| "linkMatches i (c # cs) =
     (case linkHere (c # cs) of
        Some n \<Rightarrow>
          \<lparr> mtype = link, mstart = i, mend = i + n, mcontent = take n (c # cs) \<rparr>
          # linkMatches (i + n) (drop n (c # cs))
      | None \<Rightarrow> linkMatches (i + 1) cs)"
  by pat_completeness auto
termination
  by (relation "measure (\<lambda>(i, s). length s)") (auto simp: linkHere_def split: if_splits)

text \<open>The loop over the sorted matches, from \<open>lastIndex\<close> on, and the remaining text after
  it. \<open>lastIndex\<close> becomes the end of each match, whatever it was before.\<close>

fun buildChildren :: "jsstring \<Rightarrow> nat \<Rightarrow> rmatch list \<Rightarrow> node list" where
  "buildChildren line lastIndex [] =
     (if lastIndex < length line \<and> drop lastIndex line \<noteq> []
      then [TEXT (drop lastIndex line)] else [])"
| "buildChildren line lastIndex (m # ms) =
     (if mstart m > lastIndex \<and> substring line lastIndex (mstart m) \<noteq> []
      then [TEXT (substring line lastIndex (mstart m))] else [])
     @ [case mtype m of tag \<Rightarrow> TAG (mcontent m) | link \<Rightarrow> AUTO_LINK (mcontent m)]
     @ buildChildren line (mend m) ms"

text \<open>\<open>matches.sort((a, b) => a.start - b.start)\<close> is a stable sort by \<open>start\<close>.\<close>

definition sortedMatches :: "jsstring \<Rightarrow> rmatch list" where
  "sortedMatches line = sort_key mstart (tagMatches 0 line @ linkMatches 0 line)"

definition parseLineContent :: "jsstring \<Rightarrow> node list" where
  "parseLineContent line =
     (let children = buildChildren line 0 (sortedMatches line)
      in if children = [] then [TEXT line] else children)"

section \<open>Block scanner of the API client (\<open>convertContentToNodes\<close>, api/client.ts)\<close>

definition isFenceLine :: "jsstring \<Rightarrow> bool" where
  "isFenceLine line \<longleftrightarrow> startsWith (trim line) (str ''```'')"

text \<open>\<open>line.trim().match(/^```(\w*)/)\<close>, first group: on a fence line the match never
  fails.\<close>

definition fenceLanguage :: "jsstring \<Rightarrow> jsstring" where
  "fenceLanguage line =
     (if isFenceLine line then takeWhile isWordChar (drop 3 (trim line)) else [])"

text \<open>The body of a code block, \<open>if (codeContent) codeContent += '\n'; codeContent +=
  lines[i]\<close>: the newline is added only when something was collected before.\<close>

definition codeContent :: "jsstring list \<Rightarrow> jsstring" where
  "codeContent body = foldl (\<lambda>acc l. (if acc \<noteq> [] then acc @ [0x0A] else acc) @ l) [] body"

text \<open>The condition of the loop that collects the lines of a paragraph.\<close>

definition isParagraphLine :: "jsstring \<Rightarrow> bool" where
  "isParagraphLine line \<longleftrightarrow> trim line \<noteq> [] \<and> \<not> isFenceLine line"

text \<open>The children of a paragraph: the nodes of each line, and a \<open>LINE_BREAK\<close> after
  every line but the last.\<close>

fun paragraphChildren :: "jsstring list \<Rightarrow> node list" where
  "paragraphChildren [] = []"
| "paragraphChildren [l] = parseLineContent l"
| "paragraphChildren (l # ls) = parseLineContent l @ LINE_BREAK # paragraphChildren ls"

text \<open>The loop \<open>while (i < lines.length)\<close>; the argument is the lines from index \<open>i\<close>
  on. The inner loops are \<open>takeWhile\<close> (what they collect) and \<open>dropWhile\<close> (where they
  leave \<open>i\<close>); the closing fence is skipped when there is one.\<close>

function convertLines :: "jsstring list \<Rightarrow> node list" where
  "convertLines [] = []"
| "convertLines (line # rest) =
     (if isFenceLine line then
        CODE_BLOCK (fenceLanguage line) (codeContent (takeWhile (\<lambda>l. \<not> isFenceLine l) rest))
        # convertLines (drop 1 (dropWhile (\<lambda>l. \<not> isFenceLine l) rest))
      else if trim line = [] then convertLines rest
      else
        (if paragraphChildren (takeWhile isParagraphLine (line # rest)) \<noteq> []
         then [PARAGRAPH (paragraphChildren (takeWhile isParagraphLine (line # rest)))]
         else [])
        @ convertLines (dropWhile isParagraphLine (line # rest)))"
  by pat_completeness auto
termination
  by (relation "measure length")
     (auto simp: isParagraphLine_def length_dropWhile_le less_Suc_eq_le
           intro: le_trans [OF diff_le_self length_dropWhile_le])

definition convertContentToNodes :: "jsstring \<Rightarrow> node list" where
  "convertContentToNodes content =
     (if content = [] \<or> trim content = [] then [] else convertLines (split_nl content))"


section \<open>Block scanner of the markdown service (\<open>parseMarkdownToNodes\<close>)\<close>

text \<open>\<open>^(\s*)- \[([ xX])\] (.*)\<close>: the three groups. No whitespace character is
  \<open>-\<close>, so the greedy \<open>\s*\<close> never gives anything back; \<open>.*\<close> stops at the first line
  terminator.\<close>

definition taskMatch :: "jsstring \<Rightarrow> (jsstring \<times> nat \<times> jsstring) option" where
  "taskMatch line =
     (if startsWith (dropWhile isWhiteSpace line) (str ''- ['') then
        (case drop 3 (dropWhile isWhiteSpace line) of
           c # d # e # r \<Rightarrow>
             if (c = 0x20 \<or> c = 0x78 \<or> c = 0x58) \<and> d = 0x5D \<and> e = 0x20
             then Some (takeWhile isWhiteSpace line, c, takeWhile (\<lambda>x. \<not> isLineTerminator x) r)
             else None
         | _ \<Rightarrow> None)
      else None)"

text \<open>\<open>^(\s*)- (.*)\<close>.\<close>

definition unorderedMatch :: "jsstring \<Rightarrow> (jsstring \<times> jsstring) option" where
  "unorderedMatch line =
     (if startsWith (dropWhile isWhiteSpace line) (str ''- '')
      then Some (takeWhile isWhiteSpace line,
                 takeWhile (\<lambda>x. \<not> isLineTerminator x) (drop 2 (dropWhile isWhiteSpace line)))
      else None)"

text \<open>\<open>^(\s*)(\d+)\. (.*)\<close>.\<close>

definition orderedMatch :: "jsstring \<Rightarrow> (jsstring \<times> jsstring \<times> jsstring) option" where
  "orderedMatch line =
     (let r = dropWhile isWhiteSpace line; ds = takeWhile isDigit r
      in if ds \<noteq> [] \<and> startsWith (dropWhile isDigit r) (str ''. '')
         then Some (takeWhile isWhiteSpace line, ds,
                    takeWhile (\<lambda>x. \<not> isLineTerminator x) (drop 2 (dropWhile isDigit r)))
         else None)"

text \<open>\<open>^(#{1,6}) (.*)\<close>: one to six \<open>#\<close>, then a space. With seven or more \<open>#\<close> the
  character after any one to six of them is \<open>#\<close>, and the match fails.\<close>

definition headingMatch :: "jsstring \<Rightarrow> (jsstring \<times> jsstring) option" where
  "headingMatch line =
     (let hs = takeWhile (\<lambda>c. c = 0x23) line
      in if 1 \<le> length hs \<and> length hs \<le> 6 \<and> startsWith (drop (length hs) line) (str '' '')
         then Some (hs, takeWhile (\<lambda>x. \<not> isLineTerminator x) (drop (length hs + 1) line))
         else None)"

text \<open>\<open>`([^`]+)`\<close> at the start of \<open>s\<close>: the length of the match. The run of other
  characters after the backtick must not be empty and must end at a backtick.\<close>

definition codeSpanHere :: "jsstring \<Rightarrow> nat option" where
  "codeSpanHere s =
     (case s of
        [] \<Rightarrow> None
      | c # cs \<Rightarrow>
          if c = 0x60 \<and> takeWhile (\<lambda>x. x \<noteq> 0x60) cs \<noteq> [] \<and> dropWhile (\<lambda>x. x \<noteq> 0x60) cs \<noteq> []
          then Some (length (takeWhile (\<lambda>x. x \<noteq> 0x60) cs) + 2)
          else None)"

text \<open>\<open>line.split(/(`[^`]+`)/)\<close>: the text between the matches, from left to right, and
  each match (the group) between them. \<open>cur\<close> is the text since the last match.\<close>

function splitCode :: "jsstring \<Rightarrow> jsstring \<Rightarrow> jsstring list" where
  "splitCode cur [] = [cur]"
| "splitCode cur (c # cs) =
     (case codeSpanHere (c # cs) of
        Some n \<Rightarrow> cur # take n (c # cs) # splitCode [] (drop n (c # cs))
      | None \<Rightarrow> splitCode (cur @ [c]) cs)"
  by pat_completeness auto
termination
  by (relation "measure (\<lambda>(cur, s). length s)") (auto simp: codeSpanHere_def split: if_splits)

text \<open>The loop over the parts; \<open>part.slice(1, -1)\<close> drops the first and the last
  character.\<close>

fun codeParts :: "jsstring list \<Rightarrow> node list" where
  "codeParts [] = []"
| "codeParts (part # parts) =
     (if startsWith part (str ''`'') \<and> endsWith part (str ''`'')
      then [CODE (butlast (tl part))]
      else if trim part \<noteq> [] then [TEXT part] else [])
     @ codeParts parts"

text \<open>The body of the loop for a line that does not open a code block: the nodes it
  pushes.\<close>

definition parseLine :: "jsstring \<Rightarrow> node list" where
  "parseLine line =
     (case taskMatch line of
        Some (ws, box, content) \<Rightarrow>
          [TASK_LIST_ITEM (length ws div 2) (box = 0x78 \<or> box = 0x58) [TEXT content]]
      | None \<Rightarrow>
     (case unorderedMatch line of
        Some (ws, content) \<Rightarrow> [UNORDERED_LIST_ITEM (length ws div 2) [TEXT content]]
      | None \<Rightarrow>
     (case orderedMatch line of
        Some (ws, ds, content) \<Rightarrow> [ORDERED_LIST_ITEM ds (length ws div 2) [TEXT content]]
      | None \<Rightarrow>
     (case headingMatch line of
        Some (hs, content) \<Rightarrow> [HEADING (length hs) [TEXT content]]
      | None \<Rightarrow>
     (if regex_test (\<lambda>s. codeSpanHere s \<noteq> None) line then
        (if codeParts (splitCode [] line) \<noteq> []
         then [PARAGRAPH (codeParts (splitCode [] line))] else [])
      else if trim line \<noteq> [] then [PARAGRAPH [TEXT line]]
      else [LINE_BREAK])))))"

text \<open>The loop \<open>for (let i = 0; i < lines.length; i++)\<close>; the argument is the lines from
  index \<open>i\<close> on. After a code block, \<open>continue\<close> and the \<open>i++\<close> of the loop skip the
  closing fence.\<close>

function parseMarkdownLines :: "jsstring list \<Rightarrow> node list" where
  "parseMarkdownLines [] = []"
| "parseMarkdownLines (line # rest) =
     (if isFenceLine line then
        CODE_BLOCK (drop 3 (trim line)) (join_nl (takeWhile (\<lambda>l. \<not> isFenceLine l) rest))
        # parseMarkdownLines (drop 1 (dropWhile (\<lambda>l. \<not> isFenceLine l) rest))
      else parseLine line @ parseMarkdownLines rest)"
  by pat_completeness auto
termination
  by (relation "measure length")
     (auto simp: less_Suc_eq_le intro: le_trans [OF diff_le_self length_dropWhile_le])

definition parseMarkdownToNodes :: "jsstring \<Rightarrow> node list" where
  "parseMarkdownToNodes markdown = parseMarkdownLines (split_nl markdown)"


section \<open>Node serializer (\<open>restoreNodesToMarkdown\<close>, \<open>extractTextFromChildren\<close>)\<close>

text \<open>
  What one child adds to \<open>textParts\<close>. The default branch looks for the properties
  \<open>children\<close> and \<open>textNode\<close> of the child itself; a node of any other kind has neither
  (its payload is under \<open>tagNode\<close>, \<open>autoLinkNode\<close>, \<open>paragraphNode\<close>, ...), so the branch
  adds nothing.
\<close>

fun childText :: "node \<Rightarrow> jsstring list" where
  "childText (TEXT content) = [content]"
| "childText (CODE content) = [str ''`'' @ content @ str ''`'']"
| "childText _ = []"

definition extractTextFromChildren :: "node list \<Rightarrow> jsstring" where
  "extractTextFromChildren children = concat (concat (map childText children))"

text \<open>\<open>'  '.repeat(n)\<close> and \<open>'#'.repeat(n)\<close>.\<close>

definition repeat :: "jsstring \<Rightarrow> nat \<Rightarrow> jsstring" where
  "repeat s n = concat (replicate n s)"

text \<open>The lines one node pushes. \<open>level || 1\<close> turns a level 0 into 1. The default
  branch pushes a line only for a node with a \<open>textNode\<close>, which no other kind has.\<close>

fun nodeLines :: "node \<Rightarrow> jsstring list" where
  "nodeLines (TASK_LIST_ITEM indent complete children) =
     [repeat (str ''  '') indent @ str ''- '' @ (if complete then str ''[x]'' else str ''[ ]'')
      @ str '' '' @ extractTextFromChildren children]"
| "nodeLines (UNORDERED_LIST_ITEM indent children) =
     [repeat (str ''  '') indent @ str ''- '' @ extractTextFromChildren children]"
| "nodeLines (ORDERED_LIST_ITEM number indent children) =
     [repeat (str ''  '') indent @ number @ str ''. '' @ extractTextFromChildren children]"
| "nodeLines (CODE_BLOCK language content) = [str ''```'' @ language, content, str ''```'']"
| "nodeLines (HEADING level children) =
     [repeat (str ''#'') (if level = 0 then 1 else level) @ str '' ''
      @ extractTextFromChildren children]"
| "nodeLines (PARAGRAPH children) = [extractTextFromChildren children]"
| "nodeLines (TEXT content) = [content]"
| "nodeLines LINE_BREAK = [[]]"
| "nodeLines _ = []"

definition restoreNodesToMarkdown :: "node list \<Rightarrow> jsstring" where
  "restoreNodesToMarkdown nodes = join_nl (concat (map nodeLines nodes))"


section \<open>Notions the properties are stated with\<close>

text \<open>A line that \<open>parseMarkdownToNodes\<close> takes for plain text: not blank, no fence, no
  list item, no heading, no inline code.\<close>

definition isPlainLine :: "jsstring \<Rightarrow> bool" where
  "isPlainLine line \<longleftrightarrow>
     trim line \<noteq> [] \<and> \<not> isFenceLine line \<and> taskMatch line = None \<and>
     unorderedMatch line = None \<and> orderedMatch line = None \<and> headingMatch line = None \<and>
     \<not> regex_test (\<lambda>s. codeSpanHere s \<noteq> None) line"

text \<open>A node tree without its \<open>TAG\<close> and \<open>AUTO_LINK\<close> nodes, at the top level and among the
  children of a block.\<close>

fun isTagOrLink :: "node \<Rightarrow> bool" where
  "isTagOrLink (TAG name) = True"
| "isTagOrLink (AUTO_LINK url) = True"
| "isTagOrLink _ = False"

fun withoutTagsAndLinks :: "node \<Rightarrow> node" where
  "withoutTagsAndLinks (PARAGRAPH children) = PARAGRAPH (filter (\<lambda>n. \<not> isTagOrLink n) children)"
| "withoutTagsAndLinks (HEADING level children) =
     HEADING level (filter (\<lambda>n. \<not> isTagOrLink n) children)"
| "withoutTagsAndLinks (UNORDERED_LIST_ITEM indent children) =
     UNORDERED_LIST_ITEM indent (filter (\<lambda>n. \<not> isTagOrLink n) children)"
| "withoutTagsAndLinks (ORDERED_LIST_ITEM number indent children) =
     ORDERED_LIST_ITEM number indent (filter (\<lambda>n. \<not> isTagOrLink n) children)"
| "withoutTagsAndLinks (TASK_LIST_ITEM indent complete children) =
     TASK_LIST_ITEM indent complete (filter (\<lambda>n. \<not> isTagOrLink n) children)"
| "withoutTagsAndLinks n = n"

text \<open>The names of the matches of \<open>tagRegex\<close> in a string, from left to right.\<close>

definition tagNames :: "jsstring \<Rightarrow> jsstring list" where
  "tagNames s = map mcontent (tagMatches 0 s)"

text \<open>The tag names of the \<open>TAG\<close> nodes of a document.\<close>

fun nodeTagNames :: "node \<Rightarrow> jsstring list" where
  "nodeTagNames (TAG name) = [name]"
| "nodeTagNames (PARAGRAPH children) = concat (map nodeTagNames children)"
| "nodeTagNames (HEADING level children) = concat (map nodeTagNames children)"
| "nodeTagNames (UNORDERED_LIST_ITEM indent children) = concat (map nodeTagNames children)"
| "nodeTagNames (ORDERED_LIST_ITEM number indent children) = concat (map nodeTagNames children)"
| "nodeTagNames (TASK_LIST_ITEM indent complete children) = concat (map nodeTagNames children)"
| "nodeTagNames _ = []"

definition documentTags :: "node list \<Rightarrow> jsstring set" where
  "documentTags doc = set (concat (map nodeTagNames doc))"


text \<open>The source text of an inline span: the content of a \<open>TEXT\<close> node, \<open>#\<close> and the name of
  a \<open>TAG\<close>, the URL of an \<open>AUTO_LINK\<close>.\<close>

fun spanSource :: "node \<Rightarrow> jsstring" where
  "spanSource (TEXT content) = content"
| "spanSource (TAG name) = 0x23 # name"
| "spanSource (AUTO_LINK url) = url"
| "spanSource _ = []"

text \<open>From index \<open>i\<close> on, each match of the list starts at or after the end of the one
  before it.\<close>

fun nonOverlapping :: "nat \<Rightarrow> rmatch list \<Rightarrow> bool" where
  "nonOverlapping i [] = True"
| "nonOverlapping i (m # ms) = (i \<le> mstart m \<and> nonOverlapping (mend m) ms)"

text \<open>The text a match stands for, and a match that lies in the line and holds the text
  between its \<open>start\<close> and its \<open>end\<close>.\<close>

definition matchSource :: "rmatch \<Rightarrow> jsstring" where
  "matchSource m = (case mtype m of tag \<Rightarrow> 0x23 # mcontent m | link \<Rightarrow> mcontent m)"

definition inLine :: "jsstring \<Rightarrow> rmatch \<Rightarrow> bool" where
  "inLine line m \<longleftrightarrow>
     mstart m \<le> mend m \<and> mend m \<le> length line \<and>
     take (mend m - mstart m) (drop (mstart m) line) = matchSource m"


section \<open>Evaluation and regular expressions\<close>

text \<open>The definitions a concrete input is evaluated with.\<close>

lemmas char_classes = isWhiteSpace_def isTagChar_def isDigit_def isWordChar_def isLineTerminator_def
lemmas eval_defs = str_def startsWith_def endsWith_def trim_def substring_def linkHere_def char_classes

lemma regex_test_iff: "regex_test P s \<longleftrightarrow> (\<exists>pre suf. s = pre @ suf \<and> P suf)"
proof (induction s)
  case Nil
  then show ?case by simp
next
  case (Cons c cs)
  show ?case
  proof
    assume "regex_test P (c # cs)"
    then consider "P (c # cs)" | "regex_test P cs" by auto
    then show "\<exists>pre suf. c # cs = pre @ suf \<and> P suf"
    proof cases
      case 1
      then have "c # cs = [] @ (c # cs) \<and> P (c # cs)" by simp
      then show ?thesis by blast
    next
      case 2
      with Cons.IH obtain pre suf where "cs = pre @ suf" "P suf" by blast
      then have "c # cs = (c # pre) @ suf \<and> P suf" by simp
      then show ?thesis by blast
    qed
  next
    assume "\<exists>pre suf. c # cs = pre @ suf \<and> P suf"
    then obtain pre suf where ps: "c # cs = pre @ suf" "P suf" by blast
    show "regex_test P (c # cs)"
    proof (cases pre)
      case Nil
      with ps have "suf = c # cs" by simp
      with ps(2) show ?thesis by simp
    next
      case (Cons a pre')
      with ps have "cs = pre' @ suf" by simp
      with ps(2) Cons.IH show ?thesis by auto
    qed
  qed
qed

lemma startsWith_iff: "startsWith s p \<longleftrightarrow> (\<exists>r. s = p @ r)"
  unfolding startsWith_def
proof
  assume "take (length p) s = p"
  then have "s = p @ drop (length p) s" by (metis append_take_drop_id)
  then show "\<exists>r. s = p @ r" ..
next
  assume "\<exists>r. s = p @ r"
  then show "take (length p) s = p" by auto
qed

lemma takeWhile_nonempty_iff: "takeWhile P xs \<noteq> [] \<longleftrightarrow> (\<exists>x r. xs = x # r \<and> P x)"
  by (cases xs) auto

lemma linkHere_iff:
  "linkHere s \<noteq> None \<longleftrightarrow>
     (\<exists>c rest. \<not> isWhiteSpace c \<and> (s = str ''http://'' @ c # rest \<or> s = str ''https://'' @ c # rest))"
proof -
  have l8: "length (str ''https://'') = 8" and l7: "length (str ''http://'') = 7"
    by (simp_all add: str_def)
  have A: "(startsWith s (str ''https://'') \<and> takeWhile (\<lambda>c. \<not> isWhiteSpace c) (drop 8 s) \<noteq> [])
        \<longleftrightarrow> (\<exists>c rest. \<not> isWhiteSpace c \<and> s = str ''https://'' @ c # rest)"
    using l8 by (auto simp: startsWith_iff takeWhile_nonempty_iff)
  have B: "(startsWith s (str ''http://'') \<and> takeWhile (\<lambda>c. \<not> isWhiteSpace c) (drop 7 s) \<noteq> [])
        \<longleftrightarrow> (\<exists>c rest. \<not> isWhiteSpace c \<and> s = str ''http://'' @ c # rest)"
    using l7 by (auto simp: startsWith_iff takeWhile_nonempty_iff)
  have "linkHere s \<noteq> None \<longleftrightarrow>
      (startsWith s (str ''https://'') \<and> takeWhile (\<lambda>c. \<not> isWhiteSpace c) (drop 8 s) \<noteq> []) \<or>
      (startsWith s (str ''http://'') \<and> takeWhile (\<lambda>c. \<not> isWhiteSpace c) (drop 7 s) \<noteq> [])"
    unfolding linkHere_def by simp
  then show ?thesis unfolding A B by blast
qed

lemmas line_defs = isFenceLine_def isParagraphLine_def taskMatch_def unorderedMatch_def
  orderedMatch_def headingMatch_def codeSpanHere_def parseLine_def


section \<open>Lines: fences, blank lines, plain lines\<close>

lemma takeWhile_stop: "\<not> P y \<Longrightarrow> takeWhile P (xs @ y # ys) = takeWhile P xs"
  by (induction xs) simp_all

lemma dropWhile_stop: "\<not> P y \<Longrightarrow> dropWhile P (xs @ y # ys) = dropWhile P xs @ y # ys"
  by (induction xs) simp_all

lemma trim_prefix: "\<exists>r. dropWhile isWhiteSpace line = trim line @ r"
proof -
  have "rev (dropWhile isWhiteSpace line) =
      takeWhile isWhiteSpace (rev (dropWhile isWhiteSpace line)) @
      dropWhile isWhiteSpace (rev (dropWhile isWhiteSpace line))"
    by simp
  then have "dropWhile isWhiteSpace line =
      trim line @ rev (takeWhile isWhiteSpace (rev (dropWhile isWhiteSpace line)))"
    unfolding trim_def by (metis rev_append rev_rev_ident)
  then show ?thesis ..
qed

lemma fence_first: "isFenceLine line \<Longrightarrow> \<exists>r. dropWhile isWhiteSpace line = 0x60 # r"
proof -
  assume "isFenceLine line"
  then obtain r where "trim line = str ''```'' @ r"
    unfolding isFenceLine_def startsWith_iff by blast
  moreover obtain r' where "dropWhile isWhiteSpace line = trim line @ r'"
    using trim_prefix by blast
  ultimately show ?thesis by (simp add: str_def)
qed

lemma fence_no_dash: "isFenceLine line \<Longrightarrow> \<not> startsWith (dropWhile isWhiteSpace line) (0x2D # p)"
  using fence_first [of line] by (auto simp: startsWith_def)

lemma fence_not_task: "isFenceLine line \<Longrightarrow> taskMatch line = None"
  using fence_no_dash [of line "str '' [''"] by (simp add: taskMatch_def str_def)

lemma blank_all_whitespace:
  assumes "trim line = []"
  shows "\<forall>x\<in>set line. isWhiteSpace x"
proof -
  let ?d = "dropWhile isWhiteSpace line"
  have "?d = trim line @ rev (takeWhile isWhiteSpace (rev ?d))"
    unfolding trim_def by (metis rev_append rev_rev_ident takeWhile_dropWhile_id)
  with assms have e: "?d = rev (takeWhile isWhiteSpace (rev ?d))" by simp
  have "?d = []"
  proof (rule ccontr)
    assume ne: "?d \<noteq> []"
    then have "\<not> isWhiteSpace (hd ?d)" by (rule hd_dropWhile)
    moreover have "hd ?d \<in> set (takeWhile isWhiteSpace (rev ?d))"
      using e ne by (metis hd_in_set set_rev)
    ultimately show False by (meson set_takeWhileD)
  qed
  then show ?thesis by (simp add: dropWhile_eq_Nil_conv)
qed

lemma blank_not_fence: "trim line = [] \<Longrightarrow> \<not> isFenceLine line"
  by (simp add: isFenceLine_def startsWith_def str_def)

lemma blank_parseLine:
  assumes "trim line = []"
  shows "parseLine line = [LINE_BREAK]"
proof -
  have ws: "\<forall>x\<in>set line. isWhiteSpace x" using assms by (rule blank_all_whitespace)
  then have d: "dropWhile isWhiteSpace line = []" by (simp add: dropWhile_eq_Nil_conv)
  have 1: "taskMatch line = None" by (simp add: taskMatch_def d startsWith_def str_def)
  have 2: "unorderedMatch line = None" by (simp add: unorderedMatch_def d startsWith_def str_def)
  have 3: "orderedMatch line = None" by (simp add: orderedMatch_def d)
  have "takeWhile (\<lambda>c. c = 0x23) line = []"
    using ws by (cases line) (auto simp: isWhiteSpace_def)
  then have 4: "headingMatch line = None" by (simp add: headingMatch_def)
  have 5: "\<not> regex_test (\<lambda>s. codeSpanHere s \<noteq> None) line"
  proof
    assume "regex_test (\<lambda>s. codeSpanHere s \<noteq> None) line"
    then obtain pre suf where ps: "line = pre @ suf" "codeSpanHere suf \<noteq> None"
      unfolding regex_test_iff by blast
    then obtain r where "suf = 0x60 # r"
      by (cases suf) (auto simp: codeSpanHere_def split: if_splits)
    with ps(1) have "0x60 \<in> set line" by simp
    with ws have "isWhiteSpace 0x60" by blast
    then show False by (simp add: isWhiteSpace_def)
  qed
  show ?thesis using assms 1 2 3 4 5 by (simp add: parseLine_def)
qed

lemma split_nl_single: "0x0A \<notin> set line \<Longrightarrow> split_nl line = [line]"
  by (induction line) simp_all

lemma plain_parseLine: "isPlainLine line \<Longrightarrow> parseLine line = [PARAGRAPH [TEXT line]]"
  by (simp add: isPlainLine_def parseLine_def)

lemma split_nl_nonempty: "split_nl s \<noteq> []"
  by (induction s) (auto split: list.splits)

lemma join_nl_cons: "join_nl ((c # l) # ls) = c # join_nl (l # ls)"
  by (cases ls) simp_all

lemma join_split: "join_nl (split_nl s) = s"
proof (induction s)
  case Nil
  then show ?case by simp
next
  case (Cons c cs)
  show ?case
  proof (cases "c = 0x0A")
    case True
    obtain l ls where "split_nl cs = l # ls" using split_nl_nonempty by (cases "split_nl cs") auto
    with True Cons show ?thesis by simp
  next
    case False
    obtain l ls where e: "split_nl cs = l # ls" using split_nl_nonempty by (cases "split_nl cs") auto
    with False Cons show ?thesis by (simp add: join_nl_cons)
  qed
qed


section \<open>The property classifier\<close>

text \<open>
  Claim C8. \<open>calculateMemoProperties\<close> applied to
  \<open>check out https://example.com #work\<close> gives \<open>hasLink = true\<close>,
  \<open>hasTaskList = false\<close> and \<open>hasCode = false\<close>; and for every text, \<open>hasLink\<close> is true
  exactly when the text contains \<open>http://\<close> or \<open>https://\<close> followed by at least one
  character that is not whitespace.
\<close>

theorem classify_hasLink:
  "hasLink (calculateMemoProperties (str ''check out https://example.com #work'')) = True \<and>
   hasTaskList (calculateMemoProperties (str ''check out https://example.com #work'')) = False \<and>
   hasCode (calculateMemoProperties (str ''check out https://example.com #work'')) = False \<and>
   (hasLink (calculateMemoProperties text) \<longleftrightarrow>
      (\<exists>pre c rest. \<not> isWhiteSpace c \<and>
         (text = pre @ str ''http://'' @ c # rest \<or> text = pre @ str ''https://'' @ c # rest)))"
proof -
  have 1: "calculateMemoProperties (str ''check out https://example.com #work'') =
      \<lparr>hasLink = True, hasTaskList = False, hasCode = False, hasIncompleteTasks = False\<rparr>"
    by (simp add: calculateMemoProperties_def taskBoxHere_def eval_defs)
  have 2: "hasLink (calculateMemoProperties text) \<longleftrightarrow>
      (\<exists>pre c rest. \<not> isWhiteSpace c \<and>
         (text = pre @ str ''http://'' @ c # rest \<or> text = pre @ str ''https://'' @ c # rest))"
  proof -
    have "hasLink (calculateMemoProperties text) \<longleftrightarrow>
        (\<exists>pre suf. text = pre @ suf \<and> linkHere suf \<noteq> None)"
      using regex_test_iff [of "\<lambda>s. linkHere s \<noteq> None" "text"]
      unfolding calculateMemoProperties_def by simp
    then show ?thesis unfolding linkHere_iff by blast
  qed
  show ?thesis unfolding 1 using 2 by simp
qed


section \<open>The inline tokenizer\<close>

text \<open>
  Claim C9, as amended. On the empty line \<open>parseLineContent\<close> returns one node, a \<open>TEXT\<close>
  node with empty content, and on no line does it return the empty sequence: when the
  loop over the matches has produced no child, the whole line is added as text.
\<close>

theorem tokenize_empty_line: "parseLineContent [] = [TEXT []] \<and> parseLineContent line \<noteq> []"
  by (simp add: parseLineContent_def Let_def sortedMatches_def)

text \<open>Claim C9 as stated (the empty line gives zero nodes) fails: the result has length
  one.\<close>

theorem tokenize_empty_line_counterexample:
  "parseLineContent (str '''') \<noteq> [] \<and> length (parseLineContent (str '''')) = 1"
  by (simp add: parseLineContent_def sortedMatches_def str_def)

text \<open>
  Every match lies in the line and holds the text of its extent. So when no match of the
  sorted list starts before the end of the one before it, the spans of \<open>parseLineContent\<close>
  put one after the other are the line.
\<close>

lemma tagMatches_inLine:
  "length pre = i \<Longrightarrow> m \<in> set (tagMatches i s) \<Longrightarrow> inLine (pre @ s) m"
proof (induction i s arbitrary: pre rule: tagMatches.induct)
  case (1 i)
  then show ?case by simp
next
  case (2 i c cs)
  let ?tw = "takeWhile isTagChar cs"
  show ?case
  proof (cases "c = 0x23 \<and> ?tw \<noteq> []")
    case True
    let ?m0 = "\<lparr> mtype = tag, mstart = i, mend = i + 1 + length ?tw, mcontent = ?tw \<rparr>"
    from True 2(4) consider "m = ?m0"
      | "m \<in> set (tagMatches (i + 1 + length ?tw) (dropWhile isTagChar cs))"
      by auto
    then show ?thesis
    proof cases
      case 1
      have "take (length ?tw) cs = ?tw" by (metis takeWhile_eq_take)
      moreover have "length ?tw \<le> length cs" by (rule length_takeWhile_le)
      ultimately show ?thesis
        using 1 2(3) True by (simp add: inLine_def matchSource_def)
    next
      case 2
      have "length (pre @ c # ?tw) = i + 1 + length ?tw" using "2.prems"(1) by simp
      from "2.IH"(1) [OF True this 2]
      have "inLine ((pre @ c # ?tw) @ dropWhile isTagChar cs) m" .
      then show ?thesis by simp
    qed
  next
    case False
    then have "m \<in> set (tagMatches (i + 1) cs)" using 2(4) by auto
    moreover have "length (pre @ [c]) = i + 1" using 2(3) by simp
    ultimately have "inLine ((pre @ [c]) @ cs) m" using "2.IH"(2) [OF False] by blast
    then show ?thesis by simp
  qed
qed

lemma linkHere_le: "linkHere s = Some n \<Longrightarrow> 0 < n \<and> n \<le> length s"
proof -
  assume a: "linkHere s = Some n"
  have *: "\<And>k p. startsWith s p \<Longrightarrow> length p = k \<Longrightarrow>
      k + length (takeWhile (\<lambda>c. \<not> isWhiteSpace c) (drop k s)) \<le> length s"
  proof -
    fix k p assume "startsWith s p" "length p = k"
    then have "k \<le> length s" unfolding startsWith_iff by auto
    moreover have "length (takeWhile (\<lambda>c. \<not> isWhiteSpace c) (drop k s)) \<le> length s - k"
      by (metis length_drop length_takeWhile_le)
    ultimately show "k + length (takeWhile (\<lambda>c. \<not> isWhiteSpace c) (drop k s)) \<le> length s"
      by simp
  qed
  have l8: "length (str ''https://'') = 8" and l7: "length (str ''http://'') = 7"
    by (simp_all add: str_def)
  from a show ?thesis
    unfolding linkHere_def using * [OF _ l8] * [OF _ l7] by (auto split: if_splits)
qed

lemma linkMatches_inLine:
  "length pre = i \<Longrightarrow> m \<in> set (linkMatches i s) \<Longrightarrow> inLine (pre @ s) m"
proof (induction i s arbitrary: pre rule: linkMatches.induct)
  case (1 i)
  then show ?case by simp
next
  case (2 i c cs)
  show ?case
  proof (cases "linkHere (c # cs)")
    case None
    then have "m \<in> set (linkMatches (i + 1) cs)" using 2(4) by simp
    moreover have "length (pre @ [c]) = i + 1" using 2(3) by simp
    ultimately have "inLine ((pre @ [c]) @ cs) m" using "2.IH"(1) [OF None] by blast
    then show ?thesis by simp
  next
    case (Some n)
    then have n: "0 < n" "n \<le> length (c # cs)" using linkHere_le by blast+
    let ?m0 = "\<lparr> mtype = link, mstart = i, mend = i + n, mcontent = take n (c # cs) \<rparr>"
    from Some 2(4) consider "m = ?m0" | "m \<in> set (linkMatches (i + n) (drop n (c # cs)))"
      by auto
    then show ?thesis
    proof cases
      case 1
      then show ?thesis using n 2(3) by (simp add: inLine_def matchSource_def)
    next
      case 2
      have "length (pre @ take n (c # cs)) = i + n" using "2.prems"(1) n by simp
      from "2.IH"(2) [OF Some this 2]
      have "inLine ((pre @ take n (c # cs)) @ drop n (c # cs)) m" .
      then show ?thesis by simp
    qed
  qed
qed

lemma sortedMatches_inLine: "m \<in> set (sortedMatches line) \<Longrightarrow> inLine line m"
  unfolding sortedMatches_def
  using tagMatches_inLine [of "[]" 0 m line] linkMatches_inLine [of "[]" 0 m line] by auto

lemma drop_segments:
  "i \<le> s \<Longrightarrow> s \<le> e \<Longrightarrow> e \<le> length line \<Longrightarrow>
   take (s - i) (drop i line) @ take (e - s) (drop s line) @ drop e line = drop i line"
proof -
  assume a: "i \<le> s" "s \<le> e" "e \<le> length line"
  have "drop i line = take (s - i) (drop i line) @ drop (s - i) (drop i line)"
    by (rule append_take_drop_id [symmetric])
  also have "drop (s - i) (drop i line) = drop s line" using a by simp
  also have "drop s line = take (e - s) (drop s line) @ drop (e - s) (drop s line)"
    by (rule append_take_drop_id [symmetric])
  also have "drop (e - s) (drop s line) = drop e line" using a by simp
  finally show ?thesis by simp
qed

lemma buildChildren_coverage:
  "\<forall>m\<in>set ms. inLine line m \<Longrightarrow> nonOverlapping i ms \<Longrightarrow>
   concat (map spanSource (buildChildren line i ms)) = drop i line"
proof (induction ms arbitrary: i)
  case Nil
  then show ?case by simp
next
  case (Cons m ms)
  then have wf: "mstart m \<le> mend m" "mend m \<le> length line"
    and src: "take (mend m - mstart m) (drop (mstart m) line) = matchSource m"
    and i: "i \<le> mstart m" and no: "nonOverlapping (mend m) ms"
    by (simp_all add: inLine_def)
  have ih: "concat (map spanSource (buildChildren line (mend m) ms)) = drop (mend m) line"
    using Cons.IH [OF _ no] Cons.prems(1) by simp
  have gap: "concat (map spanSource
      (if mstart m > i \<and> substring line i (mstart m) \<noteq> []
       then [TEXT (substring line i (mstart m))] else [])) = take (mstart m - i) (drop i line)"
    using i by (auto simp: substring_def max_def min_def)
  have node: "spanSource (case mtype m of tag \<Rightarrow> TAG (mcontent m) | link \<Rightarrow> AUTO_LINK (mcontent m))
      = matchSource m"
    by (simp add: matchSource_def split: match_type.splits)
  have "concat (map spanSource (buildChildren line i (m # ms))) =
      take (mstart m - i) (drop i line) @ matchSource m @ drop (mend m) line"
    using gap node ih by simp
  also have "\<dots> = drop i line"
    unfolding src [symmetric] using i wf by (rule drop_segments)
  finally show ?case .
qed

lemma coverage_without_overlap:
  assumes "nonOverlapping 0 (sortedMatches line)"
  shows "concat (map spanSource (parseLineContent line)) = line"
proof -
  have c: "concat (map spanSource (buildChildren line 0 (sortedMatches line))) = line"
    using buildChildren_coverage [OF _ assms] sortedMatches_inLine by simp
  show ?thesis
  proof (cases "buildChildren line 0 (sortedMatches line) = []")
    case True
    with c have "line = []" by simp
    with True show ?thesis by (simp add: parseLineContent_def)
  next
    case False
    with c show ?thesis by (simp add: parseLineContent_def)
  qed
qed

text \<open>
  Claim C2 on the line \<open>https://example.com/#section\<close>. The link match is the whole line,
  code units 0 to 28, and the tag match \<open>#section\<close> is code units 20 to 28 of it. The loop
  over the sorted matches emits a node for each match, whether or not it starts before
  \<open>lastIndex\<close>: the two spans overlap, and their extents, put one after the other, are
  \<open>https://example.com/#section#section\<close>, not the line.
\<close>

theorem tokenize_overlapping_matches:
  "parseLineContent (str ''https://example.com/#section'') =
     [AUTO_LINK (str ''https://example.com/#section''), TAG (str ''section'')] \<and>
   map (\<lambda>m. (mtype m, mstart m, mend m)) (sortedMatches (str ''https://example.com/#section'')) =
     [(link, 0, 28), (tag, 20, 28)] \<and>
   concat (map spanSource (parseLineContent (str ''https://example.com/#section''))) =
     str ''https://example.com/#section#section''"
  by (simp add: parseLineContent_def sortedMatches_def eval_defs)


section \<open>Task list items\<close>

lemma taskMatch_shape:
  assumes ws: "\<forall>x\<in>set ws. isWhiteSpace x"
    and box: "box = 0x20 \<or> box = 0x78 \<or> box = 0x58"
  shows "taskMatch (ws @ str ''- ['' @ box # str ''] '' @ content) =
           Some (ws, box, takeWhile (\<lambda>x. \<not> isLineTerminator x) content)"
proof -
  have d: "dropWhile isWhiteSpace (ws @ str ''- ['' @ box # str ''] '' @ content) =
      str ''- ['' @ box # str ''] '' @ content"
    using ws by (simp add: dropWhile_append2 str_def isWhiteSpace_def)
  have t: "takeWhile isWhiteSpace (ws @ str ''- ['' @ box # str ''] '' @ content) = ws"
    using ws by (simp add: takeWhile_append2 str_def isWhiteSpace_def)
  show ?thesis
    unfolding taskMatch_def d t using box by (simp add: str_def startsWith_def)
qed

text \<open>
  Claim C4, as amended. \<open>parseMarkdownToNodes\<close>, the block scanner that has the list rules,
  turns the two
  lines \<open>- [x] done\<close> and \<open>- [ ] todo\<close> into two \<open>TASK_LIST_ITEM\<close> nodes of indent 0, the
  first complete and the second not. In general a line that matches
  \<open>^(\s*)- \[([ xX])\] (.*)\<close>, that is whitespace \<open>ws\<close>, then \<open>- [\<close>, a box character
  among space, \<open>x\<close> and \<open>X\<close>, then \<open>] \<close> and the content, becomes, when the scanner is at
  it, a \<open>TASK_LIST_ITEM\<close> that is complete exactly when the box is \<open>x\<close> or \<open>X\<close>; its indent
  is half the length of \<open>ws\<close>, rounded down, and its text is the content up to the first
  line terminator. Such a line never opens a code block.
\<close>

theorem task_list_items:
  "parseMarkdownToNodes (str ''- [x] done\<newline>- [ ] todo'') =
     [TASK_LIST_ITEM 0 True [TEXT (str ''done'')], TASK_LIST_ITEM 0 False [TEXT (str ''todo'')]] \<and>
   ((\<forall>x\<in>set ws. isWhiteSpace x) \<and> (box = 0x20 \<or> box = 0x78 \<or> box = 0x58) \<longrightarrow>
      parseMarkdownLines ((ws @ str ''- ['' @ box # str ''] '' @ content) # rest) =
        TASK_LIST_ITEM (length ws div 2) (box = 0x78 \<or> box = 0x58)
          [TEXT (takeWhile (\<lambda>x. \<not> isLineTerminator x) content)]
        # parseMarkdownLines rest)"
proof (intro conjI impI)
  show "parseMarkdownToNodes (str ''- [x] done\<newline>- [ ] todo'') =
     [TASK_LIST_ITEM 0 True [TEXT (str ''done'')], TASK_LIST_ITEM 0 False [TEXT (str ''todo'')]]"
    by (simp add: parseMarkdownToNodes_def parseLine_def taskMatch_def isFenceLine_def eval_defs)
next
  let ?line = "ws @ str ''- ['' @ box # str ''] '' @ content"
  assume h: "(\<forall>x\<in>set ws. isWhiteSpace x) \<and> (box = 0x20 \<or> box = 0x78 \<or> box = 0x58)"
  then have m: "taskMatch ?line = Some (ws, box, takeWhile (\<lambda>x. \<not> isLineTerminator x) content)"
    using taskMatch_shape by blast
  then have nf: "\<not> isFenceLine ?line" using fence_not_task by fastforce
  show "parseMarkdownLines (?line # rest) =
        TASK_LIST_ITEM (length ws div 2) (box = 0x78 \<or> box = 0x58)
          [TEXT (takeWhile (\<lambda>x. \<not> isLineTerminator x) content)]
        # parseMarkdownLines rest"
    using nf m by (simp add: parseLine_def)
qed

text \<open>Claim C4 as amended, at an indented line with the box \<open>X\<close>, followed by a plain
  line.\<close>

theorem task_list_items_witness:
  "parseMarkdownLines [str ''    - [X] call `bob`'', str ''next''] =
     [TASK_LIST_ITEM 2 True [TEXT (str ''call `bob`'')], PARAGRAPH [TEXT (str ''next'')]]"
proof -
  have ws: "\<forall>x\<in>set (str ''    ''). isWhiteSpace x" by (simp add: str_def isWhiteSpace_def)
  have e: "str ''    '' @ str ''- ['' @ 0x58 # str ''] '' @ str ''call `bob`'' = str ''    - [X] call `bob`''"
    by (simp add: str_def)
  have r: "parseMarkdownLines [str ''next''] = [PARAGRAPH [TEXT (str ''next'')]]"
    by (simp add: line_defs eval_defs)
  have t: "takeWhile (\<lambda>x. \<not> isLineTerminator x) (str ''call `bob`'') = str ''call `bob`''"
    by (simp add: str_def isLineTerminator_def)
  have l: "length (str ''    '') div 2 = 2" by (simp add: str_def)
  from task_list_items [of "str ''    ''" "0x58" "str ''call `bob`''" "[str ''next'']"] ws
  have "parseMarkdownLines ((str ''    '' @ str ''- ['' @ 0x58 # str ''] '' @ str ''call `bob`'') # [str ''next'']) =
        TASK_LIST_ITEM (length (str ''    '') div 2) ((0x58::nat) = 0x78 \<or> (0x58::nat) = 0x58)
          [TEXT (takeWhile (\<lambda>x. \<not> isLineTerminator x) (str ''call `bob`''))]
        # parseMarkdownLines [str ''next'']"
    by simp
  then show ?thesis unfolding e r t l by simp
qed


text \<open>Claim C4 as stated fails for \<open>convertContentToNodes\<close>, which has no list rule: the two
  task lines are the lines of one paragraph.\<close>

theorem task_list_items_counterexample:
  "convertContentToNodes (str ''- [x] done\<newline>- [ ] todo'') =
     [PARAGRAPH [TEXT (str ''- [x] done''), LINE_BREAK, TEXT (str ''- [ ] todo'')]]"
  by (simp add: convertContentToNodes_def parseLineContent_def sortedMatches_def line_defs eval_defs)


section \<open>The serializer drops tags and links\<close>

lemma extractText_filter:
  "extractTextFromChildren (filter (\<lambda>n. \<not> isTagOrLink n) children) = extractTextFromChildren children"
proof (induction children)
  case Nil
  then show ?case by simp
next
  case (Cons n ns)
  then show ?case by (cases n) (simp_all add: extractTextFromChildren_def)
qed

lemma nodeLines_without: "nodeLines (withoutTagsAndLinks n) = nodeLines n"
  by (cases n) (simp_all add: extractText_filter)

lemma nodeLines_filter:
  "concat (map nodeLines (map withoutTagsAndLinks (filter (\<lambda>n. \<not> isTagOrLink n) nodes))) =
   concat (map nodeLines nodes)"
proof (induction nodes)
  case Nil
  then show ?case by simp
next
  case (Cons n ns)
  then show ?case by (cases n) (simp_all add: extractText_filter)
qed

text \<open>
  Claim C7. \<open>restoreNodesToMarkdown\<close> gives the same text for a node tree and for the tree
  without its \<open>TAG\<close> and \<open>AUTO_LINK\<close> nodes, and within the children of a block a \<open>TAG\<close> or
  an \<open>AUTO_LINK\<close> adds nothing to the text \<open>extractTextFromChildren\<close> builds: neither the
  tag name nor the URL reaches the output.
\<close>

theorem serializer_drops_tags_and_links:
  "restoreNodesToMarkdown (map withoutTagsAndLinks (filter (\<lambda>n. \<not> isTagOrLink n) nodes)) =
     restoreNodesToMarkdown nodes \<and>
   extractTextFromChildren (before @ TAG name # after) = extractTextFromChildren (before @ after) \<and>
   extractTextFromChildren (before @ AUTO_LINK url # after) = extractTextFromChildren (before @ after)"
proof (intro conjI)
  show "restoreNodesToMarkdown (map withoutTagsAndLinks (filter (\<lambda>n. \<not> isTagOrLink n) nodes)) =
      restoreNodesToMarkdown nodes"
    unfolding restoreNodesToMarkdown_def nodeLines_filter ..
qed (simp_all add: extractTextFromChildren_def)


section \<open>A fence that is never closed\<close>

text \<open>The content \<open>convertContentToNodes\<close> collects for a code block is the lines joined by
  newlines, without the empty lines at their start: \<open>if (codeContent)\<close> adds the newline
  only once the content is not empty.\<close>

lemma codeContent_append_nonempty:
  "acc \<noteq> [] \<Longrightarrow>
   foldl (\<lambda>acc l. (if acc \<noteq> [] then acc @ [0x0A] else acc) @ l) acc ls = join_nl (acc # ls)"
proof (induction ls arbitrary: acc)
  case Nil
  then show ?case by simp
next
  case (Cons l ls)
  have "foldl (\<lambda>acc l. (if acc \<noteq> [] then acc @ [0x0A] else acc) @ l) (acc @ [0x0A] @ l) ls =
      join_nl ((acc @ [0x0A] @ l) # ls)"
    using Cons.IH [of "acc @ [0x0A] @ l"] by simp
  moreover have "join_nl ((acc @ [0x0A] @ l) # ls) = join_nl (acc # l # ls)"
    by (cases ls) simp_all
  ultimately show ?case using Cons.prems by simp
qed

lemma codeContent_join: "codeContent ls = join_nl (dropWhile (\<lambda>l. l = []) ls)"
proof (induction ls)
  case Nil
  then show ?case by (simp add: codeContent_def)
next
  case (Cons l ls)
  show ?case
  proof (cases "l = []")
    case True
    with Cons show ?thesis by (simp add: codeContent_def)
  next
    case False
    then show ?thesis using codeContent_append_nonempty [of l ls] by (simp add: codeContent_def)
  qed
qed

text \<open>A fence line after an even number of fence lines opens a code block: the scanners
  are at it when they have read the lines before it.\<close>

lemma fence_count_split:
  "length (filter isFenceLine ls) =
     length (filter isFenceLine (takeWhile P ls)) + length (filter isFenceLine (dropWhile P ls))"
  by (metis filter_append length_append takeWhile_dropWhile_id)

lemma convertLines_before_fence:
  "isFenceLine f \<Longrightarrow> even (length (filter isFenceLine before)) \<Longrightarrow>
   convertLines (before @ f # rest) = convertLines before @ convertLines (f # rest)"
proof (induction before rule: convertLines.induct)
  case 1
  then show ?case by simp
next
  case (2 line b)
  show ?case
  proof (cases "isFenceLine line")
    case True
    let ?nf = "\<lambda>l. \<not> isFenceLine l"
    have odd: "odd (length (filter isFenceLine b))" using True "2.prems"(2) by simp
    have nofence: "filter isFenceLine (takeWhile ?nf b) = []"
      unfolding filter_empty_conv using set_takeWhileD [of _ ?nf b] by blast
    have dne: "dropWhile ?nf b \<noteq> []"
    proof
      assume "dropWhile ?nf b = []"
      then have "length (filter isFenceLine b) = 0"
        using fence_count_split [of b ?nf] nofence by simp
      with odd show False by simp
    qed
    then obtain g b' where g: "dropWhile ?nf b = g # b'" by (cases "dropWhile ?nf b") auto
    then have gf: "isFenceLine g" using hd_dropWhile [of ?nf b] by auto
    obtain x where x: "x \<in> set b" "\<not> ?nf x"
      using dne by (auto simp: dropWhile_eq_Nil_conv)
    have tw: "takeWhile ?nf (b @ f # rest) = takeWhile ?nf b"
      using x by (rule takeWhile_append1)
    have dw: "dropWhile ?nf (b @ f # rest) = dropWhile ?nf b @ f # rest"
      using x by (rule dropWhile_append1)
    have "length (filter isFenceLine b) = Suc (length (filter isFenceLine b'))"
      using fence_count_split [of b ?nf] nofence g gf by simp
    with odd have ev: "even (length (filter isFenceLine b'))" by simp
    have ih: "convertLines (b' @ f # rest) = convertLines b' @ convertLines (f # rest)"
      using "2.IH"(1) [OF True] "2.prems"(1) ev g by simp
    have 1: "convertLines ((line # b) @ f # rest) =
        CODE_BLOCK (fenceLanguage line) (codeContent (takeWhile ?nf b)) # convertLines (b' @ f # rest)"
      using True by (simp add: tw dw g)
    have 2: "convertLines (line # b) =
        CODE_BLOCK (fenceLanguage line) (codeContent (takeWhile ?nf b)) # convertLines b'"
      using True by (simp add: g)
    show ?thesis unfolding 1 2 ih by simp
  next
    case nf: False
    show ?thesis
    proof (cases "trim line = []")
      case True
      have "convertLines (b @ f # rest) = convertLines b @ convertLines (f # rest)"
        using "2.IH"(2) [OF nf True "2.prems"(1)] "2.prems"(2) nf by simp
      with nf True show ?thesis by simp
    next
      case False
      let ?xs = "line # b"
      have np: "\<not> isParagraphLine f" using "2.prems"(1) by (simp add: isParagraphLine_def)
      have tw: "takeWhile isParagraphLine (?xs @ f # rest) = takeWhile isParagraphLine ?xs"
        using np by (rule takeWhile_stop)
      have dw: "dropWhile isParagraphLine (?xs @ f # rest) = dropWhile isParagraphLine ?xs @ f # rest"
        using np by (rule dropWhile_stop)
      have "\<forall>x\<in>set (takeWhile isParagraphLine ?xs). \<not> isFenceLine x"
      proof
        fix x assume "x \<in> set (takeWhile isParagraphLine ?xs)"
        then have "isParagraphLine x" by (rule set_takeWhileD [THEN conjunct2])
        then show "\<not> isFenceLine x" by (simp add: isParagraphLine_def)
      qed
      then have "filter isFenceLine (takeWhile isParagraphLine ?xs) = []"
        unfolding filter_empty_conv by blast
      then have "length (filter isFenceLine (dropWhile isParagraphLine ?xs)) =
          length (filter isFenceLine ?xs)"
        using fence_count_split [of ?xs isParagraphLine] by simp
      then have ev: "even (length (filter isFenceLine (dropWhile isParagraphLine ?xs)))"
        using "2.prems"(2) by simp
      have ih: "convertLines (dropWhile isParagraphLine ?xs @ f # rest) =
          convertLines (dropWhile isParagraphLine ?xs) @ convertLines (f # rest)"
        using "2.IH"(3) [OF nf False "2.prems"(1) ev] .
      have 1: "convertLines (?xs @ f # rest) =
          (if paragraphChildren (takeWhile isParagraphLine ?xs) \<noteq> []
           then [PARAGRAPH (paragraphChildren (takeWhile isParagraphLine ?xs))] else [])
          @ convertLines (dropWhile isParagraphLine ?xs @ f # rest)"
        unfolding tw [symmetric] dw [symmetric] append_Cons
        using nf False by (simp del: takeWhile.simps dropWhile.simps)
      have 2: "convertLines ?xs =
          (if paragraphChildren (takeWhile isParagraphLine ?xs) \<noteq> []
           then [PARAGRAPH (paragraphChildren (takeWhile isParagraphLine ?xs))] else [])
          @ convertLines (dropWhile isParagraphLine ?xs)"
        using nf False by (simp del: takeWhile.simps dropWhile.simps)
      show ?thesis unfolding 1 2 ih by simp
    qed
  qed
qed

lemma parseMarkdownLines_before_fence:
  "isFenceLine f \<Longrightarrow> even (length (filter isFenceLine before)) \<Longrightarrow>
   parseMarkdownLines (before @ f # rest) = parseMarkdownLines before @ parseMarkdownLines (f # rest)"
proof (induction before rule: parseMarkdownLines.induct)
  case 1
  then show ?case by simp
next
  case (2 line b)
  show ?case
  proof (cases "isFenceLine line")
    case True
    let ?nf = "\<lambda>l. \<not> isFenceLine l"
    have odd: "odd (length (filter isFenceLine b))" using True "2.prems"(2) by simp
    have nofence: "filter isFenceLine (takeWhile ?nf b) = []"
      unfolding filter_empty_conv using set_takeWhileD [of _ ?nf b] by blast
    have dne: "dropWhile ?nf b \<noteq> []"
    proof
      assume "dropWhile ?nf b = []"
      then have "length (filter isFenceLine b) = 0"
        using fence_count_split [of b ?nf] nofence by simp
      with odd show False by simp
    qed
    then obtain g b' where g: "dropWhile ?nf b = g # b'" by (cases "dropWhile ?nf b") auto
    then have gf: "isFenceLine g" using hd_dropWhile [of ?nf b] by auto
    obtain x where x: "x \<in> set b" "\<not> ?nf x"
      using dne by (auto simp: dropWhile_eq_Nil_conv)
    have tw: "takeWhile ?nf (b @ f # rest) = takeWhile ?nf b"
      using x by (rule takeWhile_append1)
    have dw: "dropWhile ?nf (b @ f # rest) = dropWhile ?nf b @ f # rest"
      using x by (rule dropWhile_append1)
    have "length (filter isFenceLine b) = Suc (length (filter isFenceLine b'))"
      using fence_count_split [of b ?nf] nofence g gf by simp
    with odd have ev: "even (length (filter isFenceLine b'))" by simp
    have ih: "parseMarkdownLines (b' @ f # rest) =
        parseMarkdownLines b' @ parseMarkdownLines (f # rest)"
      using "2.IH"(1) [OF True] "2.prems"(1) ev g by simp
    have 1: "parseMarkdownLines ((line # b) @ f # rest) =
        CODE_BLOCK (drop 3 (trim line)) (join_nl (takeWhile ?nf b)) # parseMarkdownLines (b' @ f # rest)"
      using True by (simp add: tw dw g)
    have 2: "parseMarkdownLines (line # b) =
        CODE_BLOCK (drop 3 (trim line)) (join_nl (takeWhile ?nf b)) # parseMarkdownLines b'"
      using True by (simp add: g)
    show ?thesis unfolding 1 2 ih by simp
  next
    case False
    have "parseMarkdownLines (b @ f # rest) = parseMarkdownLines b @ parseMarkdownLines (f # rest)"
      using "2.IH"(2) [OF False "2.prems"(1)] "2.prems"(2) False by simp
    with False show ?thesis by simp
  qed
qed

lemma join_nl_set: "l \<in> set ls \<Longrightarrow> set l \<subseteq> set (join_nl ls)"
  by (induction ls rule: join_nl.induct) auto

lemma fence_text_not_blank:
  assumes "f \<in> set (split_nl content)" and "isFenceLine f"
  shows "content \<noteq> [] \<and> trim content \<noteq> []"
proof -
  obtain r where "dropWhile isWhiteSpace f = 0x60 # r" using assms(2) fence_first by blast
  then have "0x60 \<in> set (dropWhile isWhiteSpace f)" by simp
  then have "0x60 \<in> set f" by (rule set_dropWhileD)
  then have in_c: "0x60 \<in> set content"
    using join_nl_set [OF assms(1)] by (auto simp: join_split)
  have "trim content \<noteq> []"
  proof
    assume "trim content = []"
    then have "isWhiteSpace 0x60" using blank_all_whitespace in_c by blast
    then show False by (simp add: isWhiteSpace_def)
  qed
  with in_c show ?thesis by auto
qed

text \<open>
  A text with an opening fence that no later line closes: its lines are \<open>before\<close>, the fence
  \<open>f\<close> and \<open>rest\<close>, every fence of \<open>before\<close> is closed and \<open>rest\<close> has no fence line. Both
  scanners return the document of the lines before the fence followed by one \<open>CODE_BLOCK\<close>,
  and no node after it. The content of the block is all the remaining lines in
  \<open>parseMarkdownToNodes\<close>, and the remaining lines without the empty ones at their start in
  \<open>convertContentToNodes\<close>.
\<close>

lemma unclosed_fence_document:
  assumes lines: "split_nl content = before @ f # rest"
    and closed: "even (length (filter isFenceLine before))"
    and fence: "isFenceLine f"
    and unclosed: "\<forall>l\<in>set rest. \<not> isFenceLine l"
  shows "convertContentToNodes content =
           convertLines before @
           [CODE_BLOCK (fenceLanguage f) (join_nl (dropWhile (\<lambda>l. l = []) rest))]"
    and "parseMarkdownToNodes content =
           parseMarkdownLines before @ [CODE_BLOCK (drop 3 (trim f)) (join_nl rest)]"
proof -
  have t: "takeWhile (\<lambda>l. \<not> isFenceLine l) rest = rest"
    and d: "dropWhile (\<lambda>l. \<not> isFenceLine l) rest = []"
    using unclosed by simp_all
  have "f \<in> set (split_nl content)" using lines by simp
  then have nb: "content \<noteq> [] \<and> trim content \<noteq> []" using fence by (rule fence_text_not_blank)
  have "convertLines (f # rest) = [CODE_BLOCK (fenceLanguage f) (codeContent rest)]"
    using fence by (simp add: t d)
  then show "convertContentToNodes content =
           convertLines before @
           [CODE_BLOCK (fenceLanguage f) (join_nl (dropWhile (\<lambda>l. l = []) rest))]"
    using nb lines convertLines_before_fence [OF fence closed, of rest]
    by (simp add: convertContentToNodes_def codeContent_join)
  have "parseMarkdownLines (f # rest) = [CODE_BLOCK (drop 3 (trim f)) (join_nl rest)]"
    using fence by (simp add: t d)
  then show "parseMarkdownToNodes content =
           parseMarkdownLines before @ [CODE_BLOCK (drop 3 (trim f)) (join_nl rest)]"
    using lines parseMarkdownLines_before_fence [OF fence closed, of rest]
    by (simp add: parseMarkdownToNodes_def)
qed



section \<open>Blank lines\<close>

lemma convertLines_no_line_break: "LINE_BREAK \<notin> set (convertLines ls)"
  by (induction ls rule: convertLines.induct) (simp_all del: takeWhile.simps dropWhile.simps)

text \<open>
  Claim C5, as amended. The document of \<open>convertContentToNodes\<close> never has a \<open>LINE_BREAK\<close>
  at the top level, and when its scanner is at a blank line (one that is empty after
  \<open>trim\<close>) it goes on to the next line and adds no node. \<open>parseMarkdownToNodes\<close> instead
  adds a top-level \<open>LINE_BREAK\<close> for a blank line its scanner is at.
\<close>

theorem blank_lines:
  "LINE_BREAK \<notin> set (convertContentToNodes content) \<and>
   (trim line = [] \<longrightarrow>
      convertLines (line # rest) = convertLines rest \<and>
      parseMarkdownLines (line # rest) = LINE_BREAK # parseMarkdownLines rest)"
proof (intro conjI impI)
  show "LINE_BREAK \<notin> set (convertContentToNodes content)"
    by (simp add: convertContentToNodes_def convertLines_no_line_break)
next
  assume b: "trim line = []"
  then show "convertLines (line # rest) = convertLines rest"
    using blank_not_fence by simp
  from b show "parseMarkdownLines (line # rest) = LINE_BREAK # parseMarkdownLines rest"
    using blank_not_fence blank_parseLine by simp
qed

text \<open>Claim C5 as amended, at a line of two spaces followed by the line \<open>x\<close>.\<close>

theorem blank_lines_witness:
  "convertLines [str ''  '', str ''x''] = [PARAGRAPH [TEXT (str ''x'')]] \<and>
   parseMarkdownLines [str ''  '', str ''x''] = [LINE_BREAK, PARAGRAPH [TEXT (str ''x'')]]"
proof -
  have b: "trim (str ''  '') = []" by (simp add: eval_defs)
  have 1: "convertLines [str ''x''] = [PARAGRAPH [TEXT (str ''x'')]]"
    by (simp add: parseLineContent_def sortedMatches_def line_defs eval_defs)
  have 2: "parseMarkdownLines [str ''x''] = [PARAGRAPH [TEXT (str ''x'')]]"
    by (simp add: line_defs eval_defs)
  from blank_lines [of _ "str ''  ''" "[str ''x'']"] b show ?thesis unfolding 1 2 by blast
qed

text \<open>Claim C5 as stated fails for \<open>parseMarkdownToNodes\<close>: the empty line between \<open>a\<close> and
  \<open>b\<close> becomes a top-level \<open>LINE_BREAK\<close>.\<close>

theorem blank_lines_counterexample:
  "parseMarkdownToNodes (str ''a\<newline>\<newline>b'') =
     [PARAGRAPH [TEXT (str ''a'')], LINE_BREAK, PARAGRAPH [TEXT (str ''b'')]]"
  by (simp add: parseMarkdownToNodes_def line_defs eval_defs)


section \<open>The two block scanners compared\<close>

lemma no_matches_tokens:
  "tagMatches 0 line = [] \<Longrightarrow> linkMatches 0 line = [] \<Longrightarrow> parseLineContent line = [TEXT line]"
  by (simp add: parseLineContent_def sortedMatches_def)

text \<open>
  Claim C10, as amended. On a text of one plain line (no newline; not blank, no fence, no
  list item, no heading, no inline code) without a hashtag or link match,
  \<open>convertContentToNodes\<close> and \<open>parseMarkdownToNodes\<close> give the same document: one
  \<open>PARAGRAPH\<close> whose only child is a \<open>TEXT\<close> node with the line.
\<close>

theorem scanners_agree_on_plain_line:
  assumes "0x0A \<notin> set line" and "isPlainLine line"
    and "tagMatches 0 line = []" and "linkMatches 0 line = []"
  shows "convertContentToNodes line = parseMarkdownToNodes line \<and>
         parseMarkdownToNodes line = [PARAGRAPH [TEXT line]]"
proof -
  from assms(2) have ne: "trim line \<noteq> []" and nf: "\<not> isFenceLine line"
    by (simp_all add: isPlainLine_def)
  then have ne': "line \<noteq> []" by (auto simp: trim_def)
  have p: "isParagraphLine line" using ne nf by (simp add: isParagraphLine_def)
  have "convertLines [line] = [PARAGRAPH [TEXT line]]"
    using ne nf p no_matches_tokens [OF assms(3,4)] by simp
  then have 1: "convertContentToNodes line = [PARAGRAPH [TEXT line]]"
    using ne ne' split_nl_single [OF assms(1)] by (simp add: convertContentToNodes_def)
  have "parseMarkdownLines [line] = [PARAGRAPH [TEXT line]]"
    using nf plain_parseLine [OF assms(2)] by simp
  then have 2: "parseMarkdownToNodes line = [PARAGRAPH [TEXT line]]"
    using split_nl_single [OF assms(1)] by (simp add: parseMarkdownToNodes_def)
  from 1 2 show ?thesis by simp
qed

text \<open>Claim C10 as amended, at the line \<open>buy milk - 2 l\<close>.\<close>

theorem scanners_agree_on_plain_line_witness:
  "convertContentToNodes (str ''buy milk - 2 l'') = parseMarkdownToNodes (str ''buy milk - 2 l'') \<and>
   parseMarkdownToNodes (str ''buy milk - 2 l'') = [PARAGRAPH [TEXT (str ''buy milk - 2 l'')]]"
proof -
  have 1: "0x0A \<notin> set (str ''buy milk - 2 l'')" by (simp add: str_def)
  have 2: "isPlainLine (str ''buy milk - 2 l'')" by (simp add: isPlainLine_def line_defs eval_defs)
  have 3: "tagMatches 0 (str ''buy milk - 2 l'') = []" by (simp add: eval_defs)
  have 4: "linkMatches 0 (str ''buy milk - 2 l'') = []" by (simp add: eval_defs)
  show ?thesis by (rule scanners_agree_on_plain_line [OF 1 2 3 4])
qed

text \<open>Claim C10 as stated fails. For the empty text \<open>convertContentToNodes\<close> gives no node
  and \<open>parseMarkdownToNodes\<close> one \<open>LINE_BREAK\<close>; for \<open>- [x] done\<close> the first gives a
  paragraph and the second a task list item.\<close>

theorem scanners_agree_counterexample:
  "convertContentToNodes (str '''') = [] \<and>
   parseMarkdownToNodes (str '''') = [LINE_BREAK] \<and>
   convertContentToNodes (str ''- [x] done'') = [PARAGRAPH [TEXT (str ''- [x] done'')]] \<and>
   parseMarkdownToNodes (str ''- [x] done'') = [TASK_LIST_ITEM 0 True [TEXT (str ''done'')]]"
  by (simp add: convertContentToNodes_def parseMarkdownToNodes_def parseLineContent_def
      sortedMatches_def line_defs eval_defs)


section \<open>Round trip of plain paragraphs\<close>

lemma plain_lines_roundtrip:
  "\<forall>l\<in>set ls. l = [] \<or> isPlainLine l \<Longrightarrow> concat (map nodeLines (parseMarkdownLines ls)) = ls"
proof (induction ls)
  case Nil
  then show ?case by simp
next
  case (Cons l ls)
  then have ih: "concat (map nodeLines (parseMarkdownLines ls)) = ls" by simp
  from Cons.prems consider "l = []" | "isPlainLine l" by auto
  then show ?case
  proof cases
    case 1
    then have "trim l = []" by (simp add: trim_def)
    then have "\<not> isFenceLine l" "parseLine l = [LINE_BREAK]"
      using blank_not_fence blank_parseLine by blast+
    with 1 ih show ?thesis by simp
  next
    case 2
    then have "\<not> isFenceLine l" "parseLine l = [PARAGRAPH [TEXT l]]"
      using plain_parseLine by (simp_all add: isPlainLine_def)
    with ih show ?thesis by (simp add: extractTextFromChildren_def)
  qed
qed

text \<open>
  Claim C3, as amended. For a text in which every line is either empty or a plain line
  (not blank, no fence, no list item, no heading, no inline code),
  \<open>restoreNodesToMarkdown (parseMarkdownToNodes text)\<close> is the text again, line for line,
  with its empty lines and with its runs of consecutive plain lines.
\<close>

theorem paragraph_roundtrip:
  assumes "\<forall>l\<in>set (split_nl content). l = [] \<or> isPlainLine l"
  shows "restoreNodesToMarkdown (parseMarkdownToNodes content) = content"
  unfolding restoreNodesToMarkdown_def parseMarkdownToNodes_def
  using plain_lines_roundtrip [OF assms] by (simp add: join_split)

text \<open>Claim C3 as amended, at a text of two plain lines, an empty line and another plain
  line.\<close>

theorem paragraph_roundtrip_witness:
  "restoreNodesToMarkdown (parseMarkdownToNodes (str ''one two\<newline>three\<newline>\<newline>four'')) =
     str ''one two\<newline>three\<newline>\<newline>four''"
proof -
  have "\<forall>l\<in>set (split_nl (str ''one two\<newline>three\<newline>\<newline>four'')). l = [] \<or> isPlainLine l"
    by (simp add: isPlainLine_def line_defs eval_defs)
  then show ?thesis by (rule paragraph_roundtrip)
qed

text \<open>Claim C3 as stated fails. Through \<open>convertContentToNodes\<close> the two lines of one
  paragraph come back as \<open>ab\<close>: the \<open>LINE_BREAK\<close> between them has no text. Through
  \<open>parseMarkdownToNodes\<close> a blank line of one space comes back empty.\<close>

theorem paragraph_roundtrip_counterexample:
  "restoreNodesToMarkdown (convertContentToNodes (str ''a\<newline>b'')) = str ''ab'' \<and>
   str ''ab'' \<noteq> str ''a\<newline>b'' \<and>
   restoreNodesToMarkdown (parseMarkdownToNodes (str ''a\<newline> \<newline>b'')) = str ''a\<newline>\<newline>b'' \<and>
   str ''a\<newline>\<newline>b'' \<noteq> str ''a\<newline> \<newline>b''"
  by (simp add: restoreNodesToMarkdown_def convertContentToNodes_def parseMarkdownToNodes_def
      extractTextFromChildren_def parseLineContent_def sortedMatches_def line_defs eval_defs)


section \<open>The \<open>TAG\<close> nodes of a document\<close>

lemma tagMatches_offset:
  "map mcontent (tagMatches i s) = map mcontent (tagMatches j s)"
proof (induction i s arbitrary: j rule: tagMatches.induct)
  case (1 i)
  then show ?case by simp
next
  case (2 i c cs)
  show ?case
  proof (cases "c = 0x23 \<and> takeWhile isTagChar cs \<noteq> []")
    case True
    then show ?thesis
      using 2(1) [OF True, of "j + 1 + length (takeWhile isTagChar cs)"] by simp
  next
    case False
    then show ?thesis using 2(2) [OF False, of "j + 1"] by auto
  qed
qed

lemma tagNames_Nil: "tagNames [] = []"
  by (simp add: tagNames_def)

lemma tagNames_Cons:
  "tagNames (c # cs) =
     (if c = 0x23 \<and> takeWhile isTagChar cs \<noteq> []
      then takeWhile isTagChar cs # tagNames (dropWhile isTagChar cs)
      else tagNames cs)"
proof (cases "c = 0x23 \<and> takeWhile isTagChar cs \<noteq> []")
  case True
  have "map mcontent (tagMatches (0 + 1 + length (takeWhile isTagChar cs)) (dropWhile isTagChar cs)) =
      tagNames (dropWhile isTagChar cs)"
    unfolding tagNames_def by (rule tagMatches_offset)
  with True show ?thesis by (simp add: tagNames_def)
next
  case False
  have "map mcontent (tagMatches (0 + 1) cs) = tagNames cs"
    unfolding tagNames_def by (rule tagMatches_offset)
  with False show ?thesis by (auto simp: tagNames_def)
qed

lemma tagNames_newline: "tagNames (l @ 0x0A # rest) = tagNames l @ tagNames rest"
proof (induction l rule: length_induct)
  case (1 l)
  show ?case
  proof (cases l)
    case Nil
    then show ?thesis by (simp add: tagNames_Cons tagNames_Nil)
  next
    case (Cons c cs)
    have nt: "\<not> isTagChar 0x0A" by (simp add: isTagChar_def)
    have tw: "takeWhile isTagChar (cs @ 0x0A # rest) = takeWhile isTagChar cs"
      using nt by (rule takeWhile_stop)
    have dw: "dropWhile isTagChar (cs @ 0x0A # rest) = dropWhile isTagChar cs @ 0x0A # rest"
      using nt by (rule dropWhile_stop)
    have "length (dropWhile isTagChar cs) < length l"
      using Cons by (simp add: length_dropWhile_le less_Suc_eq_le)
    then have ih1: "tagNames (dropWhile isTagChar cs @ 0x0A # rest) =
        tagNames (dropWhile isTagChar cs) @ tagNames rest"
      using 1 by blast
    have ih2: "tagNames (cs @ 0x0A # rest) = tagNames cs @ tagNames rest"
      using 1 Cons by simp
    show ?thesis
      unfolding Cons append_Cons tagNames_Cons [of c "cs @ 0x0A # rest"] tagNames_Cons [of c cs]
        tw dw ih1 ih2
      by simp
  qed
qed

lemma tagNames_join: "tagNames (join_nl ls) = concat (map tagNames ls)"
proof (induction ls rule: join_nl.induct)
  case 1
  then show ?case by (simp add: tagNames_Nil)
next
  case (2 l)
  then show ?case by simp
next
  case (3 l v va)
  then show ?case by (simp add: tagNames_newline)
qed

lemma tagNames_lines: "tagNames content = concat (map tagNames (split_nl content))"
  using tagNames_join [of "split_nl content"] by (simp add: join_split)

lemma tagNames_no_hash: "0x23 \<notin> set s \<Longrightarrow> tagNames s = []"
  by (induction s) (simp_all add: tagNames_Nil tagNames_Cons)

lemma tagNames_blank: "trim s = [] \<Longrightarrow> tagNames s = []"
proof -
  assume "trim s = []"
  then have "\<forall>x\<in>set s. isWhiteSpace x" by (rule blank_all_whitespace)
  moreover have "\<not> isWhiteSpace 0x23" by (simp add: isWhiteSpace_def)
  ultimately have "0x23 \<notin> set s" by blast
  then show ?thesis by (rule tagNames_no_hash)
qed

lemma tagMatches_type: "m \<in> set (tagMatches i s) \<Longrightarrow> mtype m = tag"
  by (induction i s rule: tagMatches.induct) (auto split: if_splits)

lemma linkMatches_type: "m \<in> set (linkMatches i s) \<Longrightarrow> mtype m = link"
  by (induction i s rule: linkMatches.induct) (auto split: option.splits)

lemma buildChildren_tags:
  "set (concat (map nodeTagNames (buildChildren line i ms))) =
     mcontent ` {m \<in> set ms. mtype m = tag}"
proof (induction ms arbitrary: i)
  case Nil
  then show ?case by simp
next
  case (Cons m ms)
  show ?case
  proof (cases "mtype m")
    case tag
    then show ?thesis using Cons [of "mend m"] by auto
  next
    case link
    then show ?thesis using Cons [of "mend m"] by auto
  qed
qed

lemma sortedMatches_tags: "mcontent ` {m \<in> set (sortedMatches line). mtype m = tag} = set (tagNames line)"
proof -
  have "{m \<in> set (sortedMatches line). mtype m = tag} = set (tagMatches 0 line)"
    unfolding sortedMatches_def using tagMatches_type linkMatches_type by fastforce
  then show ?thesis by (simp add: tagNames_def)
qed

lemma parseLineContent_tags:
  "set (concat (map nodeTagNames (parseLineContent line))) = set (tagNames line)"
proof (cases "buildChildren line 0 (sortedMatches line) = []")
  case True
  then have "sortedMatches line = []" by (cases "sortedMatches line") auto
  then have "set (tagNames line) = {}" using sortedMatches_tags [of line] by simp
  with True show ?thesis by (simp add: parseLineContent_def)
next
  case False
  then show ?thesis
    using buildChildren_tags [of line 0 "sortedMatches line"] sortedMatches_tags [of line]
    by (simp add: parseLineContent_def)
qed

lemma paragraphChildren_tags:
  "set (concat (map nodeTagNames (paragraphChildren ls))) = (\<Union>l\<in>set ls. set (tagNames l))"
proof (induction ls rule: paragraphChildren.induct)
  case 1
  then show ?case by simp
next
  case (2 l)
  then show ?case using parseLineContent_tags [of l] by simp
next
  case (3 l v va)
  then show ?case using parseLineContent_tags [of l] by simp
qed

lemma convertLines_tags:
  "\<forall>l\<in>set ls. \<not> isFenceLine l \<Longrightarrow> documentTags (convertLines ls) = (\<Union>l\<in>set ls. set (tagNames l))"
proof (induction ls rule: convertLines.induct)
  case 1
  then show ?case by (simp add: documentTags_def)
next
  case (2 line rest)
  then have nf: "\<not> isFenceLine line" by simp
  show ?case
  proof (cases "trim line = []")
    case True
    then have "documentTags (convertLines rest) = (\<Union>l\<in>set rest. set (tagNames l))"
      using 2(2) [OF nf] 2(4) by simp
    with True nf show ?thesis by (simp add: tagNames_blank)
  next
    case False
    let ?para = "takeWhile isParagraphLine (line # rest)"
    let ?after = "dropWhile isParagraphLine (line # rest)"
    have split: "?para @ ?after = line # rest" by (rule takeWhile_dropWhile_id)
    have "\<forall>l\<in>set ?after. \<not> isFenceLine l"
      using 2(4) by (metis set_dropWhileD)
    then have ih: "documentTags (convertLines ?after) = (\<Union>l\<in>set ?after. set (tagNames l))"
      using 2(3) [OF nf False] by blast
    have c: "convertLines (line # rest) =
        (if paragraphChildren ?para \<noteq> [] then [PARAGRAPH (paragraphChildren ?para)] else [])
        @ convertLines ?after"
      using nf False by (simp del: takeWhile.simps dropWhile.simps)
    have "documentTags (convertLines (line # rest)) =
        set (concat (map nodeTagNames (paragraphChildren ?para))) \<union> documentTags (convertLines ?after)"
      unfolding c by (simp add: documentTags_def del: takeWhile.simps dropWhile.simps)
    also have "\<dots> = (\<Union>l\<in>set ?para. set (tagNames l)) \<union> (\<Union>l\<in>set ?after. set (tagNames l))"
      unfolding paragraphChildren_tags ih ..
    also have "\<dots> = (\<Union>l\<in>set (?para @ ?after). set (tagNames l))"
      by (simp only: set_append UN_Un)
    finally show ?thesis unfolding split .
  qed
qed

text \<open>
  For a text none of whose lines is a fence line, the tag names of the \<open>TAG\<close> nodes of
  \<open>convertContentToNodes\<close> are the names of the matches of \<open>tagRegex\<close> in the whole text.
  The lines of a code block are not tokenized: a match inside one is no \<open>TAG\<close> node.
\<close>

lemma document_tags_without_fences:
  assumes "\<forall>l\<in>set (split_nl content). \<not> isFenceLine l"
  shows "documentTags (convertContentToNodes content) = set (tagNames content)"
proof (cases "content = [] \<or> trim content = []")
  case True
  then have "trim content = []" by (auto simp: trim_def)
  then have "tagNames content = []" by (rule tagNames_blank)
  with True show ?thesis
    by (simp add: convertContentToNodes_def documentTags_def)
next
  case False
  then have "documentTags (convertContentToNodes content) =
      (\<Union>l\<in>set (split_nl content). set (tagNames l))"
    using convertLines_tags [OF assms] by (simp add: convertContentToNodes_def)
  also have "\<dots> = set (tagNames content)"
    using tagNames_lines [of content] by simp
  finally show ?thesis .
qed

lemma document_tags_in_code_block:
  "tagNames (str ''```\<newline>#a\<newline>```'') = [str ''a''] \<and>
   documentTags (convertContentToNodes (str ''```\<newline>#a\<newline>```'')) = {}"
  by (simp add: tagNames_def documentTags_def convertContentToNodes_def
      fenceLanguage_def codeContent_def line_defs eval_defs)

end
